theory Spec2Isabelle
  imports Main "HOL-Library.Multiset"
begin

section \<open>Saved-object references of filters\<close>

text \<open>
  The filter objects are JavaScript objects whose properties are all optional at run time.
  A property that is absent (or \<^verbatim>\<open>undefined\<close>) is \<open>None\<close>. The properties the two
  functions never look at are kept in one field each (\<open>metaRest\<close>, \<open>filterRest\<close>), so
  that an object spread copies them.
\<close>

record ('v, 'm) FilterMeta =
  index :: "string option"
  value' :: "'v option"
  indexRefName :: "string option"
  metaRest :: 'm

record ('v, 'm, 'r) Filter =
  meta :: "('v, 'm) FilterMeta option"
  filterRest :: 'r

record SavedObjectReference =
  name :: string
  type' :: string
  id' :: string

record ('v, 'm, 'r) Extracted =
  persistableFilters :: "('v, 'm, 'r) Filter list"
  references :: "SavedObjectReference list"

datatype Error = Error string

text \<open>
  JavaScript truthiness of an optional string property: \<^verbatim>\<open>undefined\<close> and the empty
  string are falsy, every other string is truthy.
\<close>

definition truthy :: "string option \<Rightarrow> bool" where
  "truthy s = (case s of None \<Rightarrow> False | Some v \<Rightarrow> v \<noteq> [])"

definition hasIndex :: "('v, 'm, 'r) Filter \<Rightarrow> bool" where
  "hasIndex filterRow = (case meta filterRow of None \<Rightarrow> False | Some m \<Rightarrow> truthy (index m))"

definition hasIndexRefName :: "('v, 'm, 'r) Filter \<Rightarrow> bool" where
  "hasIndexRefName filterRow =
     (case meta filterRow of None \<Rightarrow> False | Some m \<Rightarrow> truthy (indexRefName m))"

text \<open>
  \<^verbatim>\<open>${i}\<close> in a template literal, for an array index \<open>i\<close>: the decimal digits of
  \<open>i\<close>, without leading zeros (an array index is below \<open>2\<^sup>3\<^sup>2\<close>, far from the
  numbers that print with an exponent).
\<close>

definition digitChar :: "nat \<Rightarrow> char" where
  "digitChar d = ''0123456789'' ! d"

fun numberToString :: "nat \<Rightarrow> string" where
  "numberToString n =
     (if n < 10 then [digitChar n] else numberToString (n div 10) @ [digitChar (n mod 10)])"

declare numberToString.simps [simp del]

text \<open>
  The callback of \<^verbatim>\<open>filters.map\<close> in \<^verbatim>\<open>extractFilterReferences\<close>. The array
  \<^verbatim>\<open>references\<close> it pushes to is passed in and returned.
\<close>

definition extractRow ::
  "('v, 'm, 'r) Filter \<Rightarrow> nat \<Rightarrow> SavedObjectReference list \<Rightarrow>
   ('v, 'm, 'r) Filter \<times> SavedObjectReference list" where
  "extractRow filterRow i refs =
     (case meta filterRow of
        None \<Rightarrow> (filterRow, refs)
      | Some m \<Rightarrow>
          (case index m of
             None \<Rightarrow> (filterRow, refs)
           | Some idx \<Rightarrow>
               if idx = [] then (filterRow, refs)
               else
                 (let refName = ''filter-index-pattern-'' @ numberToString i;
                      refs' = refs @ [\<lparr>name = refName, type' = ''index-pattern'', id' = idx\<rparr>];
                      newMeta = m\<lparr>indexRefName := Some refName\<rparr>;
                      newMeta = newMeta\<lparr>index := None\<rparr>;
                      newMeta = newMeta\<lparr>value' := None\<rparr>
                  in (filterRow\<lparr>meta := Some newMeta\<rparr>, refs'))))"

fun extractRows ::
  "nat \<Rightarrow> ('v, 'm, 'r) Filter list \<Rightarrow> SavedObjectReference list \<Rightarrow>
   ('v, 'm, 'r) Filter list \<times> SavedObjectReference list" where
  "extractRows i [] refs = ([], refs)"
| "extractRows i (filterRow # rest) refs =
     (let (row, refs') = extractRow filterRow i refs;
          (rows, refs'') = extractRows (Suc i) rest refs'
      in (row # rows, refs''))"

definition extractFilterReferences ::
  "('v, 'm, 'r) Filter list \<Rightarrow> ('v, 'm, 'r) Extracted" where
  "extractFilterReferences filters =
     (let (rows, refs) = extractRows 0 filters []
      in \<lparr>persistableFilters = rows, references = refs\<rparr>)"

text \<open>
  The callback of \<^verbatim>\<open>filters.map\<close> in \<^verbatim>\<open>injectFilterReferences\<close>; \<open>Inl\<close> is the
  thrown \<^verbatim>\<open>Error\<close>. \<^verbatim>\<open>references.find\<close> is \<^const>\<open>List.find\<close>: the first match.
\<close>

definition injectRow ::
  "SavedObjectReference list \<Rightarrow> ('v, 'm, 'r) Filter \<Rightarrow> Error + ('v, 'm, 'r) Filter" where
  "injectRow refs filterRow =
     (case meta filterRow of
        None \<Rightarrow> Inr filterRow
      | Some m \<Rightarrow>
          (case indexRefName m of
             None \<Rightarrow> Inr filterRow
           | Some refName \<Rightarrow>
               if refName = [] then Inr filterRow
               else
                 (let metaRest = m\<lparr>indexRefName := None\<rparr>
                  in case List.find (\<lambda>ref. name ref = refName) refs of
                       None \<Rightarrow> Inl (Error (''Could not find reference for '' @ refName))
                     | Some reference \<Rightarrow>
                         Inr (filterRow\<lparr>meta := Some (metaRest\<lparr>index := Some (id' reference)\<rparr>)\<rparr>))))"

text \<open>\<^verbatim>\<open>Array.prototype.map\<close> with a callback that may throw: the first throw ends it.\<close>

fun mapThrowing :: "('a \<Rightarrow> 'e + 'b) \<Rightarrow> 'a list \<Rightarrow> 'e + 'b list" where
  "mapThrowing f [] = Inr []"
| "mapThrowing f (x # xs) =
     (case f x of
        Inl e \<Rightarrow> Inl e
      | Inr y \<Rightarrow> (case mapThrowing f xs of Inl e \<Rightarrow> Inl e | Inr ys \<Rightarrow> Inr (y # ys)))"

definition injectFilterReferences ::
  "('v, 'm, 'r) Filter list \<Rightarrow> SavedObjectReference list \<Rightarrow> Error + ('v, 'm, 'r) Filter list" where
  "injectFilterReferences filters refs = mapThrowing (injectRow refs) filters"

section \<open>The batched streaming plugin\<close>

subsection \<open>Requests and the compression flag\<close>

text \<open>
  A header of a request is absent, one string or several strings. Header names are in
  lower case, as the server hands them over.
\<close>

datatype HeaderValue = Single string | Multiple "string list"

record 'b KibanaRequest =
  headers :: "string \<rightharpoonup> HeaderValue"
  body :: 'b

text \<open>\<^verbatim>\<open>request.headers['x-chunk-encoding'] !== 'deflate'\<close>\<close>

definition getCompressionDisabled :: "'b KibanaRequest \<Rightarrow> bool" where
  "getCompressionDisabled request \<longleftrightarrow>
     headers request ''x-chunk-encoding'' \<noteq> Some (Single ''deflate'')"

definition streamingHeaders :: "(string \<times> string) list" where
  "streamingHeaders =
     [(''Content-Type'', ''application/x-ndjson''),
      (''Connection'', ''keep-alive''),
      (''Transfer-Encoding'', ''chunked'')]"

subsection \<open>Promises and observables\<close>

text \<open>
  A promise is pending for ever, or settles at some tick of the clock: it resolves with a
  value or rejects with an error. A function that throws before it returns a promise is a
  promise rejected at once.

  An observable is what it emits, in order, and how it ends: it completes, it fails with an
  error, or it stays open for ever.
\<close>

datatype ('e, 'a) Promise = Pending | Resolved nat 'a | Rejected nat 'e

datatype 'e Ending = Complete | Failed 'e | Open

record ('e, 'a) Observable =
  emitted :: "'a list"
  ending :: "'e Ending"

fun isSettled :: "('e, 'a) Promise \<Rightarrow> bool" where
  "isSettled Pending = False"
| "isSettled (Resolved t v) = True"
| "isSettled (Rejected t e) = True"

fun settledAt :: "('e, 'a) Promise \<Rightarrow> nat" where
  "settledAt Pending = 0"
| "settledAt (Resolved t v) = t"
| "settledAt (Rejected t e) = t"

text \<open>
  The values of a list of settled promises, up to the first rejection, which fails the
  observable; \<open>fin\<close> is the ending when none is rejected.
\<close>

fun drain :: "('e, 'a) Promise list \<Rightarrow> 'e Ending \<Rightarrow> ('e, 'a) Observable" where
  "drain [] fin = \<lparr>emitted = [], ending = fin\<rparr>"
| "drain (Resolved t v # ps) fin =
     (let rest = drain ps fin in rest\<lparr>emitted := v # emitted rest\<rparr>)"
| "drain (Rejected t e # ps) fin = \<lparr>emitted = [], ending = Failed e\<rparr>"
| "drain (Pending # ps) fin = drain ps fin"

text \<open>The tick and the value of a resolved promise, for the statements about streams.\<close>

fun resolution :: "('e, 'a) Promise \<Rightarrow> (nat \<times> 'a) list" where
  "resolution (Resolved t v) = [(t, v)]"
| "resolution (Rejected t e) = []"
| "resolution Pending = []"

fun isRejected :: "('e, 'a) Promise \<Rightarrow> bool" where
  "isRejected (Rejected t e) = True"
| "isRejected (Resolved t v) = False"
| "isRejected Pending = False"

text \<open>
  Modelled from the spec: \<^verbatim>\<open>map$\<close> of \<^verbatim>\<open>@kbn/std\<close>, which is not among the sources.
  The spec has every item handed to its handler at once, none waiting for another, and one
  result emitted per item as soon as its handler settles, in completion order. So every
  promise \<open>fn x i\<close> (\<open>i\<close> the position of \<open>x\<close> in the source) starts at tick 0, and the
  results are emitted in the order of the ticks at which the promises settle (of two that
  settle at the same tick, the one submitted first). A rejected promise fails the
  observable; with none rejected the observable completes once every promise has settled,
  and stays open while one is pending.
\<close>

definition map_dollar :: "'a list \<Rightarrow> ('a \<Rightarrow> nat \<Rightarrow> ('e, 'b) Promise) \<Rightarrow> ('e, 'b) Observable" where
  "map_dollar source fn =
     (let inner = map (\<lambda>(i, x). fn x i) (enumerate 0 source)
      in drain (sort_key settledAt (filter isSettled inner))
           (if list_all isSettled inner then Complete else Open))"

subsection \<open>The batch processing route\<close>

text \<open>
  \<^verbatim>\<open>BatchResponseItem\<close>: an object with an \<^verbatim>\<open>id\<close> and the optional properties
  \<^verbatim>\<open>result\<close> and \<^verbatim>\<open>error\<close> (the field \<open>itemId\<close> is the property \<^verbatim>\<open>id\<close>).
  \<^verbatim>\<open>ErrorLike\<close>, the type of a normalized error: an object with a \<^verbatim>\<open>message\<close> and
  whatever else it carries. \<^verbatim>\<open>BatchRequestData\<close> is the body of the request.
\<close>

record 'm ErrorLike =
  message :: string
  errorRest :: 'm

record ('r, 'n) BatchResponseItem =
  itemId :: nat
  result :: "'r option"
  error :: "'n option"

record 'd BatchRequestData =
  batch :: "'d list"

record ('d, 'x, 'r) BatchProcessingRouteParams =
  onBatchItem :: "'d \<Rightarrow> ('x, 'r) Promise"

record ('p, 'e, 'a) StreamingResponseHandler =
  getResponseStream :: "'p \<Rightarrow> ('e, 'a) Observable"

text \<open>
  The async function that \<^verbatim>\<open>addBatchProcessingRoute\<close> passes to \<^verbatim>\<open>map$\<close>: it awaits
  the handler of the item inside \<^verbatim>\<open>try\<close>, so it resolves when the handler settles and
  never rejects. \<^verbatim>\<open>normalizeError\<close> is not among the sources; it is a parameter.
  Thrown values have one type, \<open>'x\<close>, throughout.
\<close>

definition batchItemRecord ::
  "('d, 'x, 'r) BatchProcessingRouteParams \<Rightarrow> ('x \<Rightarrow> 'm ErrorLike) \<Rightarrow> 'd \<Rightarrow> nat \<Rightarrow>
   ('x, ('r, 'm ErrorLike) BatchResponseItem) Promise" where
  "batchItemRecord handlerInstance normalizeError batchItem i =
     (case onBatchItem handlerInstance batchItem of
        Resolved t res \<Rightarrow> Resolved t \<lparr>itemId = i, result = Some res, error = None\<rparr>
      | Rejected t err \<Rightarrow>
          Resolved t \<lparr>itemId = i, result = None, error = Some (normalizeError err)\<rparr>
      | Pending \<Rightarrow> Pending)"

text \<open>
  For the statements about the batch: the records of the items whose handler settles, each
  with the tick at which it settles, in the order of submission, the first item having the
  position \<open>n\<close>.
\<close>

definition timedRecord ::
  "('d, 'x, 'r) BatchProcessingRouteParams \<Rightarrow> ('x \<Rightarrow> 'm ErrorLike) \<Rightarrow> 'd \<Rightarrow> nat \<Rightarrow>
   (nat \<times> ('r, 'm ErrorLike) BatchResponseItem) list" where
  "timedRecord handlerInstance normalizeError batchItem i =
     resolution (batchItemRecord handlerInstance normalizeError batchItem i)"

definition timedRecords ::
  "('d, 'x, 'r) BatchProcessingRouteParams \<Rightarrow> ('x \<Rightarrow> 'm ErrorLike) \<Rightarrow> nat \<Rightarrow> 'd list \<Rightarrow>
   (nat \<times> ('r, 'm ErrorLike) BatchResponseItem) list" where
  "timedRecords handlerInstance normalizeError n items =
     concat (map (\<lambda>(i, x). timedRecord handlerInstance normalizeError x i) (enumerate n items))"

text \<open>
  The handler that \<^verbatim>\<open>addBatchProcessingRoute\<close> registers with
  \<^verbatim>\<open>addStreamingResponseRoute\<close>.
\<close>

definition batchProcessingHandler ::
  "('x \<Rightarrow> 'm ErrorLike) \<Rightarrow> ('b KibanaRequest \<Rightarrow> ('d, 'x, 'r) BatchProcessingRouteParams) \<Rightarrow>
   'b KibanaRequest \<Rightarrow>
   ('d BatchRequestData, 'x, ('r, 'm ErrorLike) BatchResponseItem) StreamingResponseHandler" where
  "batchProcessingHandler normalizeError handler request =
     (let handlerInstance = handler request
      in \<lparr>getResponseStream =
            (\<lambda>data. map_dollar (batch data) (batchItemRecord handlerInstance normalizeError))\<rparr>)"

subsection \<open>The routes\<close>

record 's HttpResponse =
  status :: nat
  headers' :: "(string \<times> string) list"
  body' :: 's

text \<open>
  Modelled from the spec: \<^verbatim>\<open>response.ok\<close> of the host's response factory, which is not
  among the sources: the response with status 200 and the given headers and body.
\<close>

definition ok :: "(string \<times> string) list \<Rightarrow> 's \<Rightarrow> 's HttpResponse" where
  "ok hdrs strm = \<lparr>status = 200, headers' = hdrs, body' = strm\<rparr>"

text \<open>
  The request handler that \<^verbatim>\<open>addStreamingResponseRoute\<close> registers for a path.
  \<^verbatim>\<open>createStream\<close> is not among the sources; here it is a parameter, a function of the
  observable and of the flag \<open>compressionDisabled\<close> (the logger is left out).
\<close>

definition streamingResponseRoute ::
  "(('e, 'a) Observable \<Rightarrow> bool \<Rightarrow> 's) \<Rightarrow>
   ('p KibanaRequest \<Rightarrow> ('p, 'e, 'a) StreamingResponseHandler) \<Rightarrow>
   'p KibanaRequest \<Rightarrow> 's HttpResponse" where
  "streamingResponseRoute createStream handler request =
     (let handlerInstance = handler request;
          data = body request;
          compressionDisabled = getCompressionDisabled request
      in ok streamingHeaders
           (createStream (getResponseStream handlerInstance data) compressionDisabled))"

text \<open>
  The request handler that \<^verbatim>\<open>createStreamingRequestHandler\<close> returns: it awaits the
  observable of \<open>streamHandler\<close>.
\<close>

definition streamingRequestHandler ::
  "(('e, 'a) Observable \<Rightarrow> bool \<Rightarrow> 's) \<Rightarrow>
   ('c \<Rightarrow> 'p KibanaRequest \<Rightarrow> ('x, ('e, 'a) Observable) Promise) \<Rightarrow>
   'c \<Rightarrow> 'p KibanaRequest \<Rightarrow> ('x, 's HttpResponse) Promise" where
  "streamingRequestHandler createStream streamHandler context request =
     (case streamHandler context request of
        Pending \<Rightarrow> Pending
      | Rejected t e \<Rightarrow> Rejected t e
      | Resolved t response \<Rightarrow>
          (let compressionDisabled = getCompressionDisabled request
           in Resolved t (ok streamingHeaders (createStream response compressionDisabled))))"

text \<open>
  The request handler of a path registered with \<^verbatim>\<open>addBatchProcessingRoute\<close>.
\<close>

definition batchProcessingRoute ::
  "(('x, ('r, 'm ErrorLike) BatchResponseItem) Observable \<Rightarrow> bool \<Rightarrow> 's) \<Rightarrow>
   ('x \<Rightarrow> 'm ErrorLike) \<Rightarrow>
   ('d BatchRequestData KibanaRequest \<Rightarrow> ('d, 'x, 'r) BatchProcessingRouteParams) \<Rightarrow>
   'd BatchRequestData KibanaRequest \<Rightarrow> 's HttpResponse" where
  "batchProcessingRoute createStream normalizeError handler =
     streamingResponseRoute createStream (batchProcessingHandler normalizeError handler)"

subsection \<open>The stream of the response\<close>

text \<open>
  The body of a response is a stream: the bytes written to it and how it ends.
\<close>

record 'e Stream =
  written :: string
  streamEnd :: "'e Ending"

definition newline :: char where
  "newline = CHR 0x0A"

text \<open>
  Modelled from the spec: \<^verbatim>\<open>createStream\<close> of \<^verbatim>\<open>./streaming\<close>, which is not among the
  sources. The spec has each record serialized on its own as one JSON object on one line,
  the newline as the delimiter, in the order of emission; with compression, every record
  passes through the compressor before it is written; and the stream ends as the observable
  ends. \<open>stringify\<close> (\<^verbatim>\<open>JSON.stringify\<close>) and \<open>deflate\<close> (the compressor, with
  whatever encoding makes its output text) are parameters.
\<close>

definition createNDJSONStream :: "('a \<Rightarrow> string) \<Rightarrow> ('e, 'a) Observable \<Rightarrow> 'e Stream" where
  "createNDJSONStream stringify results =
     \<lparr>written = concat (map (\<lambda>message. stringify message @ [newline]) (emitted results)),
      streamEnd = ending results\<rparr>"

definition createCompressedStream ::
  "('a \<Rightarrow> string) \<Rightarrow> (string \<Rightarrow> string) \<Rightarrow> ('e, 'a) Observable \<Rightarrow> 'e Stream" where
  "createCompressedStream stringify deflate results =
     \<lparr>written =
        concat (map (\<lambda>message. deflate (stringify message) @ [newline]) (emitted results)),
      streamEnd = ending results\<rparr>"

definition createStream ::
  "('a \<Rightarrow> string) \<Rightarrow> (string \<Rightarrow> string) \<Rightarrow> ('e, 'a) Observable \<Rightarrow> bool \<Rightarrow> 'e Stream" where
  "createStream stringify deflate response compressionDisabled =
     (if compressionDisabled then createNDJSONStream stringify response
      else createCompressedStream stringify deflate response)"

text \<open>
  Modelled from the spec: the reader of the stream, which is not among the sources either.
  It cuts the bytes into lines at the newlines and parses each line, after decompressing it
  when the stream is compressed. \<open>parse\<close> (\<^verbatim>\<open>JSON.parse\<close>) and \<open>inflate\<close> are
  parameters; \<open>None\<close> is a line that cannot be read.
\<close>

fun splitLines :: "string \<Rightarrow> string \<Rightarrow> string list" where
  "splitLines line [] = (if line = [] then [] else [line])"
| "splitLines line (c # cs) =
     (if c = newline then line # splitLines [] cs else splitLines (line @ [c]) cs)"

definition readStream ::
  "(string \<Rightarrow> 'a option) \<Rightarrow> (string \<Rightarrow> string option) \<Rightarrow> bool \<Rightarrow> string \<Rightarrow> 'a list option" where
  "readStream parse inflate compressionDisabled bytes =
     those (map (\<lambda>line. if compressionDisabled then parse line
                         else (case inflate line of None \<Rightarrow> None | Some text \<Rightarrow> parse text))
              (splitLines [] bytes))"

subsection \<open>The scenarios of the specification\<close>

text \<open>
  A batch of three items: the handler of \<^verbatim>\<open>slow\<close> resolves at tick 100, the handler of
  \<^verbatim>\<open>fast\<close> at tick 1, the handler of \<^verbatim>\<open>throw\<close> rejects at tick 2. The request has no
  headers. A normalized error has the thrown text as its message.
\<close>

abbreviation scenarioHandler ::
  "string BatchRequestData KibanaRequest \<Rightarrow> (string, string, string) BatchProcessingRouteParams" where
  "scenarioHandler \<equiv>
     \<lambda>request. \<lparr>onBatchItem =
        \<lambda>op. if op = ''slow'' then Resolved 100 ''late''
             else if op = ''fast'' then Resolved 1 ''early''
             else Rejected 2 ''boom''\<rparr>"

abbreviation scenarioNormalizeError :: "string \<Rightarrow> unit ErrorLike" where
  "scenarioNormalizeError \<equiv> \<lambda>err. \<lparr>message = err, errorRest = ()\<rparr>"

abbreviation scenarioRequest :: "string BatchRequestData KibanaRequest" where
  "scenarioRequest \<equiv> \<lparr>headers = Map.empty, body = \<lparr>batch = [''slow'', ''fast'', ''throw'']\<rparr>\<rparr>"

abbreviation scenarioStream ::
  "(string, (string, unit ErrorLike) BatchResponseItem) Observable" where
  "scenarioStream \<equiv>
     getResponseStream (batchProcessingHandler scenarioNormalizeError scenarioHandler scenarioRequest)
       (body scenarioRequest)"

section \<open>Properties of the filter references\<close>

subsection \<open>Reference names\<close>

lemma digitChar_inj: "a < 10 \<Longrightarrow> b < 10 \<Longrightarrow> digitChar a = digitChar b \<Longrightarrow> a = b"
proof -
  assume a: "a < 10" and b: "b < 10" and e: "digitChar a = digitChar b"
  have d: "distinct ''0123456789''" by simp
  have l: "length ''0123456789'' = 10" by simp
  from e have "''0123456789'' ! a = ''0123456789'' ! b" by (simp add: digitChar_def)
  with d a b l show "a = b" by (metis nth_eq_iff_index_eq)
qed

lemma numberToString_nonempty: "numberToString n \<noteq> []"
  by (subst numberToString.simps) simp

lemma numberToString_single: "n < 10 \<Longrightarrow> numberToString n = [digitChar n]"
  by (subst numberToString.simps) simp

lemma numberToString_snoc:
  "\<not> n < 10 \<Longrightarrow> numberToString n = numberToString (n div 10) @ [digitChar (n mod 10)]"
  by (subst numberToString.simps) simp

lemma numberToString_inj: "numberToString n = numberToString k \<Longrightarrow> n = k"
proof (induction n arbitrary: k rule: numberToString.induct)
  case (1 n)
  show ?case
  proof (cases "n < 10")
    case True
    note n = this
    show ?thesis
    proof (cases "k < 10")
      case True
      with n "1.prems" show ?thesis
        by (simp add: numberToString_single digitChar_inj)
    next
      case False
      with n "1.prems" numberToString_nonempty [of "k div 10"] show ?thesis
        by (auto simp add: numberToString_single numberToString_snoc)
    qed
  next
    case False
    note n = this
    show ?thesis
    proof (cases "k < 10")
      case True
      with n "1.prems" numberToString_nonempty [of "n div 10"] show ?thesis
        by (auto simp add: numberToString_single numberToString_snoc)
    next
      case False
      with n "1.prems" have eq: "numberToString (n div 10) = numberToString (k div 10)"
        and d: "digitChar (n mod 10) = digitChar (k mod 10)"
        by (simp_all add: numberToString_snoc)
      from "1.IH" [OF n eq] have "n div 10 = k div 10" .
      moreover from d have "n mod 10 = k mod 10"
        by (intro digitChar_inj) simp_all
      ultimately show ?thesis
        by (metis div_mult_mod_eq)
    qed
  qed
qed


subsection \<open>Extraction, row by row\<close>

lemma extractRow_refs:
  "extractRow f k refs = (fst (extractRow f k []), refs @ snd (extractRow f k []))"
  by (simp add: extractRow_def Let_def split: option.splits)

lemma extractRows_char:
  "extractRows i fs refs =
     (map (\<lambda>(k, f). fst (extractRow f k [])) (enumerate i fs),
      refs @ concat (map (\<lambda>(k, f). snd (extractRow f k [])) (enumerate i fs)))"
proof (induction fs arbitrary: i refs)
  case Nil
  show ?case by simp
next
  case (Cons f fs)
  show ?case
    using extractRow_refs [of f i refs] by (simp add: Cons.IH split: prod.splits)
qed

lemma find_append:
  "List.find P (xs @ ys) = (case List.find P xs of None \<Rightarrow> List.find P ys | Some x \<Rightarrow> Some x)"
  by (induction xs) simp_all

lemma extractRow_plain:
  "\<not> hasIndex f \<Longrightarrow> extractRow f k refs = (f, refs)"
  by (auto simp add: extractRow_def hasIndex_def truthy_def split: option.splits)

lemma extractRow_indexed:
  "meta f = Some m \<Longrightarrow> index m = Some idx \<Longrightarrow> idx \<noteq> [] \<Longrightarrow>
   extractRow f k refs =
     (f\<lparr>meta := Some (m\<lparr>indexRefName := Some (''filter-index-pattern-'' @ numberToString k),
                         index := None, value' := None\<rparr>)\<rparr>,
      refs @ [\<lparr>name = ''filter-index-pattern-'' @ numberToString k,
               type' = ''index-pattern'', id' = idx\<rparr>])"
  by (simp add: extractRow_def Let_def)

lemma extractRow_names:
  "r \<in> set (snd (extractRow f k [])) \<Longrightarrow> name r = ''filter-index-pattern-'' @ numberToString k"
  by (auto simp add: extractRow_def Let_def split: option.splits if_splits)

lemma find_generated:
  "j < length fs \<Longrightarrow> meta (fs ! j) = Some m \<Longrightarrow> index m = Some idx \<Longrightarrow> idx \<noteq> [] \<Longrightarrow>
   List.find (\<lambda>r. name r = ''filter-index-pattern-'' @ numberToString (i + j))
     (concat (map (\<lambda>(k, f). snd (extractRow f k [])) (enumerate i fs))) =
   Some \<lparr>name = ''filter-index-pattern-'' @ numberToString (i + j),
         type' = ''index-pattern'', id' = idx\<rparr>"
proof (induction fs arbitrary: i j)
  case Nil
  then show ?case by simp
next
  case (Cons f fs)
  show ?case
  proof (cases j)
    case 0
    with Cons.prems show ?thesis
      by (simp add: extractRow_indexed)
  next
    case (Suc j')
    have skip: "List.find (\<lambda>r. name r = ''filter-index-pattern-'' @ numberToString (i + j))
                  (snd (extractRow f i [])) = None"
      using Suc by (auto simp add: find_None_iff dest!: extractRow_names numberToString_inj)
    from Cons.prems Suc
    have "List.find (\<lambda>r. name r = ''filter-index-pattern-'' @ numberToString (Suc i + j'))
            (concat (map (\<lambda>(k, f). snd (extractRow f k [])) (enumerate (Suc i) fs))) =
          Some \<lparr>name = ''filter-index-pattern-'' @ numberToString (Suc i + j'),
                type' = ''index-pattern'', id' = idx\<rparr>"
      by (intro Cons.IH) simp_all
    with skip Suc show ?thesis
      by (simp add: find_append)
  qed
qed

subsection \<open>Injection, row by row\<close>

lemma mapThrowing_Inr_iff:
  "mapThrowing f xs = Inr ys \<longleftrightarrow> list_all2 (\<lambda>x y. f x = Inr y) xs ys"
proof
  show "mapThrowing f xs = Inr ys \<Longrightarrow> list_all2 (\<lambda>x y. f x = Inr y) xs ys"
    by (induction xs arbitrary: ys) (auto split: sum.splits)
  show "list_all2 (\<lambda>x y. f x = Inr y) xs ys \<Longrightarrow> mapThrowing f xs = Inr ys"
    by (induction xs ys rule: list_all2_induct) simp_all
qed

lemma injectRow_plain:
  "\<not> hasIndexRefName f \<Longrightarrow> injectRow refs f = Inr f"
  by (auto simp add: injectRow_def hasIndexRefName_def truthy_def split: option.splits)

lemma injectRow_cases:
  "injectRow refs f =
     (case meta f of
        None \<Rightarrow> Inr f
      | Some m \<Rightarrow>
          (case indexRefName m of
             None \<Rightarrow> Inr f
           | Some n \<Rightarrow>
               if n = [] then Inr f
               else (case List.find (\<lambda>r. name r = n) refs of
                       None \<Rightarrow> Inl (Error (''Could not find reference for '' @ n))
                     | Some r \<Rightarrow>
                         Inr (f\<lparr>meta := Some (m\<lparr>indexRefName := None, index := Some (id' r)\<rparr>)\<rparr>))))"
  by (simp add: injectRow_def Let_def split: option.splits)

lemma injectRow_throws_iff:
  "injectRow refs f = Inl e \<longleftrightarrow>
     (\<exists>m n. meta f = Some m \<and> indexRefName m = Some n \<and> n \<noteq> [] \<and>
            (\<forall>r\<in>set refs. name r \<noteq> n) \<and>
            e = Error (''Could not find reference for '' @ n))"
  by (auto simp add: injectRow_cases find_None_iff find_Some_iff split: option.splits)

subsection \<open>Extraction followed by injection\<close>

text \<open>
  Claim C9. Extracting the references of a list of filters and injecting them again gives
  one filter per input filter. A filter that had a \<^verbatim>\<open>meta.index\<close> comes back with the
  same \<^verbatim>\<open>meta.index\<close>, without \<^verbatim>\<open>meta.indexRefName\<close> and without
  \<^verbatim>\<open>meta.value\<close> (extraction deletes it, injection does not restore it); its other
  properties are as before. A filter without \<^verbatim>\<open>meta\<close> or without \<^verbatim>\<open>meta.index\<close>
  comes back unchanged. (A \<^verbatim>\<open>meta.index\<close> that is the empty string is falsy for the
  guard of the code: such a filter comes back unchanged as well, its \<^verbatim>\<open>meta.index\<close> and
  its \<^verbatim>\<open>meta.value\<close> included.)

  The input is a list of \<^verbatim>\<open>Filter\<close>, a type that has no \<^verbatim>\<open>indexRefName\<close>. The
  objects of the model can carry one, so the hypothesis says what the input type says, and
  only where it matters: a filter without \<^verbatim>\<open>meta.index\<close> has no
  \<^verbatim>\<open>meta.indexRefName\<close>.
\<close>

theorem extract_then_inject:
  fixes filters :: "('v, 'm, 'r) Filter list"
  assumes typed: "\<forall>f\<in>set filters. \<not> hasIndex f \<longrightarrow> \<not> hasIndexRefName f"
  shows "\<exists>out.
           injectFilterReferences (persistableFilters (extractFilterReferences filters))
             (references (extractFilterReferences filters)) = Inr out \<and>
           length out = length filters \<and>
           (\<forall>k<length filters.
              if hasIndex (filters ! k)
              then (\<exists>m m'. meta (filters ! k) = Some m \<and> meta (out ! k) = Some m' \<and>
                      index m' = index m \<and> indexRefName m' = None \<and> value' m' = None \<and>
                      metaRest m' = metaRest m) \<and>
                   filterRest (out ! k) = filterRest (filters ! k)
              else out ! k = filters ! k)"
proof -
  define refs where "refs = concat (map (\<lambda>(k, f). snd (extractRow f k [])) (enumerate 0 filters))"
  define rows where "rows = map (\<lambda>(k, f). fst (extractRow f k [])) (enumerate 0 filters)"
  define restore :: "('v, 'm, 'r) Filter \<Rightarrow> ('v, 'm, 'r) Filter" where
    "restore = (\<lambda>f. case meta f of
                      None \<Rightarrow> f
                    | Some m \<Rightarrow> if truthy (index m)
                                then f\<lparr>meta := Some (m\<lparr>indexRefName := None, value' := None\<rparr>)\<rparr>
                                else f)"
  have ex: "extractFilterReferences filters = \<lparr>persistableFilters = rows, references = refs\<rparr>"
    by (simp add: extractFilterReferences_def extractRows_char rows_def refs_def)
  have row: "injectRow refs (rows ! k) = Inr (restore (filters ! k))" if k: "k < length filters" for k
  proof (cases "hasIndex (filters ! k)")
    case False
    with typed k have "\<not> hasIndexRefName (filters ! k)" by simp
    moreover from False have "restore (filters ! k) = filters ! k"
      by (simp add: restore_def hasIndex_def split: option.splits)
    moreover from False k have "rows ! k = filters ! k"
      by (simp add: rows_def nth_enumerate_eq extractRow_plain)
    ultimately show ?thesis by (simp add: injectRow_plain)
  next
    case True
    then obtain m idx where m: "meta (filters ! k) = Some m" "index m = Some idx" "idx \<noteq> []"
      by (auto simp add: hasIndex_def truthy_def split: option.splits)
    from find_generated [OF k m, of 0]
    have "List.find (\<lambda>r. name r = ''filter-index-pattern-'' @ numberToString k) refs =
            Some \<lparr>name = ''filter-index-pattern-'' @ numberToString k,
                  type' = ''index-pattern'', id' = idx\<rparr>"
      by (simp add: refs_def)
    moreover from k m have "rows ! k =
        (filters ! k)\<lparr>meta := Some (m\<lparr>indexRefName := Some (''filter-index-pattern-'' @ numberToString k),
                                      index := None, value' := None\<rparr>)\<rparr>"
      by (simp add: rows_def nth_enumerate_eq extractRow_indexed)
    moreover from m have "restore (filters ! k) =
        (filters ! k)\<lparr>meta := Some (m\<lparr>indexRefName := None, value' := None\<rparr>)\<rparr>"
      by (simp add: restore_def truthy_def)
    ultimately show ?thesis
      using m by (simp add: injectRow_cases)
  qed
  have "length rows = length filters"
    by (simp add: rows_def)
  then have "list_all2 (\<lambda>x y. injectRow refs x = Inr y) rows (map restore filters)"
    by (simp add: list_all2_conv_all_nth row)
  then have inj: "injectFilterReferences rows refs = Inr (map restore filters)"
    by (simp add: injectFilterReferences_def mapThrowing_Inr_iff)
  have shape: "if hasIndex (filters ! k)
        then (\<exists>m m'. meta (filters ! k) = Some m \<and> meta (map restore filters ! k) = Some m' \<and>
                index m' = index m \<and> indexRefName m' = None \<and> value' m' = None \<and>
                metaRest m' = metaRest m) \<and>
             filterRest (map restore filters ! k) = filterRest (filters ! k)
        else map restore filters ! k = filters ! k" if "k < length filters" for k
    using that by (auto simp add: restore_def hasIndex_def split: option.splits)
  show ?thesis
  proof (intro exI conjI allI impI)
    show "injectFilterReferences (persistableFilters (extractFilterReferences filters))
            (references (extractFilterReferences filters)) = Inr (map restore filters)"
      using inj by (simp add: ex)
    show "length (map restore filters) = length filters"
      by simp
  qed (rule shape)
qed

text \<open>
  The round trip on two filters, one with an index and a value, one without \<^verbatim>\<open>meta\<close>.
\<close>

theorem extract_then_inject_witness:
  "injectFilterReferences
     (persistableFilters (extractFilterReferences
        [\<lparr>meta = Some \<lparr>index = Some ''logs'', value' = Some (7::nat), indexRefName = None,
                        metaRest = ()\<rparr>, filterRest = ()\<rparr>,
         \<lparr>meta = None, filterRest = ()\<rparr>]))
     (references (extractFilterReferences
        [\<lparr>meta = Some \<lparr>index = Some ''logs'', value' = Some (7::nat), indexRefName = None,
                        metaRest = ()\<rparr>, filterRest = ()\<rparr>,
         \<lparr>meta = None, filterRest = ()\<rparr>])) =
   Inr [\<lparr>meta = Some \<lparr>index = Some ''logs'', value' = None, indexRefName = None,
                      metaRest = ()\<rparr>, filterRest = ()\<rparr>,
        \<lparr>meta = None, filterRest = ()\<rparr>]"
proof -
  let ?filters = "[\<lparr>meta = Some \<lparr>index = Some ''logs'', value' = Some (7::nat), indexRefName = None,
                                metaRest = ()\<rparr>, filterRest = ()\<rparr>,
                   \<lparr>meta = None, filterRest = ()\<rparr>]"
  have typed: "\<forall>f\<in>set ?filters. \<not> hasIndex f \<longrightarrow> \<not> hasIndexRefName f"
    by (simp add: hasIndex_def hasIndexRefName_def truthy_def)
  from extract_then_inject [OF typed] obtain out where
    out: "injectFilterReferences (persistableFilters (extractFilterReferences ?filters))
            (references (extractFilterReferences ?filters)) = Inr out"
      "length out = length ?filters"
      "\<forall>k<length ?filters. if hasIndex (?filters ! k)
              then (\<exists>m m'. meta (?filters ! k) = Some m \<and> meta (out ! k) = Some m' \<and>
                      index m' = index m \<and> indexRefName m' = None \<and> value' m' = None \<and>
                      metaRest m' = metaRest m) \<and>
                   filterRest (out ! k) = filterRest (?filters ! k)
              else out ! k = ?filters ! k"
    by blast
  from out(3) have 0: "out ! 0 = \<lparr>meta = Some \<lparr>index = Some ''logs'', value' = None, indexRefName = None,
                            metaRest = ()\<rparr>, filterRest = ()\<rparr>"
    by (auto simp add: hasIndex_def truthy_def dest!: spec [of _ "0::nat"])
  from out(3) have 1: "out ! 1 = \<lparr>meta = None, filterRest = ()\<rparr>"
    by (auto simp add: hasIndex_def truthy_def dest!: spec [of _ "1::nat"])
  from out(2) 0 1 have "out = [\<lparr>meta = Some \<lparr>index = Some ''logs'', value' = None, indexRefName = None,
                            metaRest = ()\<rparr>, filterRest = ()\<rparr>,
             \<lparr>meta = None, filterRest = ()\<rparr>]"
    by (cases out; cases "tl out"; cases "tl (tl out)") auto
  with out(1) show ?thesis by simp
qed

subsection \<open>When injection throws\<close>

text \<open>
  Claim C10, as the code has it. \<^verbatim>\<open>injectFilterReferences\<close> throws if and only if some
  input filter has a non-empty \<^verbatim>\<open>meta.indexRefName\<close> that no reference in the list
  is named by. The error it throws is \<^verbatim>\<open>Could not find reference for\<close> followed by such
  a name. When every non-empty \<^verbatim>\<open>meta.indexRefName\<close> names a reference, it returns one
  output filter per input filter.
\<close>

theorem inject_throws_iff:
  "((\<exists>e. injectFilterReferences filters refs = Inl e) \<longleftrightarrow>
      (\<exists>f\<in>set filters. \<exists>m n. meta f = Some m \<and> indexRefName m = Some n \<and> n \<noteq> [] \<and>
         (\<forall>r\<in>set refs. name r \<noteq> n))) \<and>
   (\<forall>e. injectFilterReferences filters refs = Inl e \<longrightarrow>
      (\<exists>f\<in>set filters. \<exists>m n. meta f = Some m \<and> indexRefName m = Some n \<and> n \<noteq> [] \<and>
         (\<forall>r\<in>set refs. name r \<noteq> n) \<and>
         e = Error (''Could not find reference for '' @ n))) \<and>
   ((\<forall>f\<in>set filters. \<forall>m n. meta f = Some m \<and> indexRefName m = Some n \<and> n \<noteq> [] \<longrightarrow>
         (\<exists>r\<in>set refs. name r = n)) \<longrightarrow>
      (\<exists>out. injectFilterReferences filters refs = Inr out \<and> length out = length filters))"
proof -
  have thrown: "\<exists>f\<in>set filters. injectRow refs f = Inl e"
    if "injectFilterReferences filters refs = Inl e" for e
    using that unfolding injectFilterReferences_def
    by (induction filters) (auto split: sum.splits)
  have throws: "\<exists>e. injectFilterReferences filters refs = Inl e"
    if "f \<in> set filters" "injectRow refs f = Inl e'" for f e'
    using that unfolding injectFilterReferences_def
    by (induction filters) (auto split: sum.splits)
  have len: "length out = length filters" if "injectFilterReferences filters refs = Inr out" for out
    using that by (simp add: injectFilterReferences_def mapThrowing_Inr_iff list_all2_lengthD)
  have 1: "(\<exists>e. injectFilterReferences filters refs = Inl e) \<longleftrightarrow>
      (\<exists>f\<in>set filters. \<exists>m n. meta f = Some m \<and> indexRefName m = Some n \<and> n \<noteq> [] \<and>
         (\<forall>r\<in>set refs. name r \<noteq> n))"
    using thrown throws by (fastforce simp add: injectRow_throws_iff)
  have 2: "\<forall>e. injectFilterReferences filters refs = Inl e \<longrightarrow>
      (\<exists>f\<in>set filters. \<exists>m n. meta f = Some m \<and> indexRefName m = Some n \<and> n \<noteq> [] \<and>
         (\<forall>r\<in>set refs. name r \<noteq> n) \<and>
         e = Error (''Could not find reference for '' @ n))"
    using thrown by (fastforce simp add: injectRow_throws_iff)
  have 3: "(\<forall>f\<in>set filters. \<forall>m n. meta f = Some m \<and> indexRefName m = Some n \<and> n \<noteq> [] \<longrightarrow>
         (\<exists>r\<in>set refs. name r = n)) \<longrightarrow>
      (\<exists>out. injectFilterReferences filters refs = Inr out \<and> length out = length filters)"
  proof
    assume a: "\<forall>f\<in>set filters. \<forall>m n. meta f = Some m \<and> indexRefName m = Some n \<and> n \<noteq> [] \<longrightarrow>
         (\<exists>r\<in>set refs. name r = n)"
    with 1 have "\<not> (\<exists>e. injectFilterReferences filters refs = Inl e)" by blast
    then obtain out where "injectFilterReferences filters refs = Inr out"
      by (cases "injectFilterReferences filters refs") auto
    with len show "\<exists>out. injectFilterReferences filters refs = Inr out \<and> length out = length filters"
      by blast
  qed
  from 1 2 3 show ?thesis by blast
qed

text \<open>
  A filter that names a reference, against an empty list of references and against a list
  that holds the reference.
\<close>

theorem inject_throws_iff_witness:
  "injectFilterReferences
     [\<lparr>meta = Some \<lparr>index = None, value' = None :: unit option,
                    indexRefName = Some ''filter-index-pattern-0'', metaRest = ()\<rparr>,
       filterRest = ()\<rparr>] [] =
   Inl (Error ''Could not find reference for filter-index-pattern-0'') \<and>
   (\<exists>out. injectFilterReferences
     [\<lparr>meta = Some \<lparr>index = None, value' = None :: unit option,
                    indexRefName = Some ''filter-index-pattern-0'', metaRest = ()\<rparr>,
       filterRest = ()\<rparr>]
     [\<lparr>name = ''filter-index-pattern-0'', type' = ''index-pattern'', id' = ''logs''\<rparr>] = Inr out \<and>
     length out = 1)"
proof -
  let ?filters = "[\<lparr>meta = Some \<lparr>index = None, value' = None :: unit option,
                    indexRefName = Some ''filter-index-pattern-0'', metaRest = ()\<rparr>,
       filterRest = ()\<rparr>]"
  let ?refs = "[\<lparr>name = ''filter-index-pattern-0'', type' = ''index-pattern'', id' = ''logs''\<rparr>]"
  from inject_throws_iff [of ?filters "[]"]
  have "injectFilterReferences ?filters [] =
          Inl (Error ''Could not find reference for filter-index-pattern-0'')"
    by (cases "injectFilterReferences ?filters []") auto
  moreover from inject_throws_iff [of ?filters ?refs]
  have "\<exists>out. injectFilterReferences ?filters ?refs = Inr out \<and> length out = 1"
    by simp
  ultimately show ?thesis by blast
qed

text \<open>
  Claim C10, as stated, at a filter whose \<^verbatim>\<open>meta.indexRefName\<close> is the empty string
  and an empty list of references: no reference has a matching name, and nothing is thrown.
  The guard \<^verbatim>\<open>!filterRow.meta.indexRefName\<close> returns the filter as it is.
\<close>

theorem inject_empty_name_counterexample:
  "injectFilterReferences
     [\<lparr>meta = Some \<lparr>index = None, value' = None :: unit option, indexRefName = Some '''',
                    metaRest = ()\<rparr>, filterRest = ()\<rparr>] [] =
   Inr [\<lparr>meta = Some \<lparr>index = None, value' = None :: unit option, indexRefName = Some '''',
                    metaRest = ()\<rparr>, filterRest = ()\<rparr>]"
  by (simp add: injectFilterReferences_def injectRow_def)

section \<open>Properties of the batched streaming plugin\<close>

subsection \<open>Observables of promises that never reject\<close>

lemma drain_resolved:
  "drain (map (\<lambda>(t, v). Resolved t v) ys) fin = \<lparr>emitted = map snd ys, ending = fin\<rparr>"
  by (induction ys) (auto simp add: Let_def)

lemma insort_key_resolved:
  "insort_key settledAt (Resolved t v) (map (\<lambda>(t, v). Resolved t v) ys) =
   map (\<lambda>(t, v). Resolved t v) (insort_key fst (t, v) ys)"
  by (induction ys) auto

lemma sort_key_resolved:
  "sort_key settledAt (map (\<lambda>(t, v). Resolved t v) ys) =
   map (\<lambda>(t, v). Resolved t v) (sort_key fst ys)"
  by (induction ys) (auto simp add: insort_key_resolved)

lemma settled_resolved:
  "\<not> list_ex isRejected ps \<Longrightarrow>
   filter isSettled ps = map (\<lambda>(t, v). Resolved t v) (concat (map resolution ps))"
proof (induction ps)
  case Nil
  show ?case by simp
next
  case (Cons p ps)
  then show ?case by (cases p) simp_all
qed

lemma map_dollar_resolved:
  assumes "\<And>x i. \<not> isRejected (fn x i)"
  shows "map_dollar source fn =
     \<lparr>emitted = map snd (sort_key fst
         (concat (map (\<lambda>(i, x). resolution (fn x i)) (enumerate 0 source)))),
      ending = (if list_all (\<lambda>(i, x). isSettled (fn x i)) (enumerate 0 source)
                then Complete else Open)\<rparr>"
proof -
  let ?inner = "map (\<lambda>(i, x). fn x i) (enumerate 0 source)"
  let ?ys = "concat (map (\<lambda>(i, x). resolution (fn x i)) (enumerate 0 source))"
  let ?fin = "if list_all isSettled ?inner then Complete else Open"
  have "\<not> list_ex isRejected ?inner"
    using assms by (auto simp add: list_ex_iff)
  then have e1: "filter isSettled ?inner = map (\<lambda>(t, v). Resolved t v) (concat (map resolution ?inner))"
    by (rule settled_resolved)
  have e2: "concat (map resolution ?inner) = ?ys"
    by (simp add: comp_def case_prod_unfold)
  have e3: "list_all isSettled ?inner = list_all (\<lambda>(i, x). isSettled (fn x i)) (enumerate 0 source)"
    by (simp add: list_all_iff case_prod_unfold)
  have "map_dollar source fn = drain (sort_key settledAt (filter isSettled ?inner)) ?fin"
    by (simp only: map_dollar_def Let_def)
  also have "\<dots> = drain (sort_key settledAt (map (\<lambda>(t, v). Resolved t v) ?ys)) ?fin"
    by (simp only: e1 e2)
  also have "\<dots> = \<lparr>emitted = map snd (sort_key fst ?ys), ending = ?fin\<rparr>"
    by (simp only: sort_key_resolved drain_resolved)
  finally show ?thesis
    by (simp only: e3)
qed

subsection \<open>The stream of a batch\<close>

lemma batchItemRecord_not_rejected: "\<not> isRejected (batchItemRecord hi ne x i)"
  by (simp add: batchItemRecord_def split: Promise.splits)

lemma batchItemRecord_settled:
  "isSettled (batchItemRecord hi ne x i) = isSettled (onBatchItem hi x)"
  by (simp add: batchItemRecord_def split: Promise.splits)

lemma timedRecord_cases:
  "timedRecord hi ne x i =
     (case onBatchItem hi x of
        Resolved t res \<Rightarrow> [(t, \<lparr>itemId = i, result = Some res, error = None\<rparr>)]
      | Rejected t err \<Rightarrow> [(t, \<lparr>itemId = i, result = None, error = Some (ne err)\<rparr>)]
      | Pending \<Rightarrow> [])"
  by (simp add: timedRecord_def batchItemRecord_def split: Promise.splits)

lemma batchItemRecord_resolution:
  "resolution (batchItemRecord hi ne x i) = timedRecord hi ne x i"
  by (simp add: timedRecord_cases) (simp add: batchItemRecord_def split: Promise.splits)

lemma list_all_enumerate:
  "list_all (\<lambda>(i, x). P x) (enumerate n xs) = list_all P xs"
  by (induction xs arbitrary: n) simp_all

lemma batch_stream:
  "getResponseStream (batchProcessingHandler ne handler request) data =
     \<lparr>emitted = map snd (sort_key fst (timedRecords (handler request) ne 0 (batch data))),
      ending = (if list_all (\<lambda>x. isSettled (onBatchItem (handler request) x)) (batch data)
                then Complete else Open)\<rparr>"
proof -
  have "getResponseStream (batchProcessingHandler ne handler request) data =
          map_dollar (batch data) (batchItemRecord (handler request) ne)"
    by (simp add: batchProcessingHandler_def Let_def)
  also note map_dollar_resolved [of "batchItemRecord (handler request) ne" "batch data",
      OF batchItemRecord_not_rejected]
  finally show ?thesis
    by (simp add: batchItemRecord_resolution batchItemRecord_settled list_all_enumerate
        timedRecords_def)
qed

lemma batch_route_body:
  "body' (batchProcessingRoute toStream ne handler request) =
     toStream (getResponseStream (batchProcessingHandler ne handler request) (body request))
       (getCompressionDisabled request)"
  by (simp add: batchProcessingRoute_def streamingResponseRoute_def ok_def Let_def)

lemma timedRecords_Nil: "timedRecords hi ne n [] = []"
  by (simp add: timedRecords_def)

lemma timedRecords_Cons:
  "timedRecords hi ne n (x # xs) = timedRecord hi ne x n @ timedRecords hi ne (Suc n) xs"
  by (simp add: timedRecords_def)

lemma timedRecords_sound:
  "(t, r) \<in> set (timedRecords hi ne n xs) \<Longrightarrow>
   n \<le> itemId r \<and> itemId r < n + length xs \<and>
   (t, r) \<in> set (timedRecord hi ne (xs ! (itemId r - n)) (itemId r))"
proof (induction xs arbitrary: n)
  case Nil
  then show ?case by (simp add: timedRecords_Nil)
next
  case (Cons x xs)
  from Cons.prems consider
    (head) "(t, r) \<in> set (timedRecord hi ne x n)" |
    (tail) "(t, r) \<in> set (timedRecords hi ne (Suc n) xs)"
    by (auto simp add: timedRecords_Cons)
  then show ?case
  proof cases
    case head
    then have "itemId r = n"
      by (auto simp add: timedRecord_cases split: Promise.splits)
    with head show ?thesis by simp
  next
    case tail
    from Cons.IH [OF tail] show ?thesis
      by (auto simp add: Suc_diff_le)
  qed
qed

lemma timedRecords_complete:
  "k < length xs \<Longrightarrow> (t, r) \<in> set (timedRecord hi ne (xs ! k) (n + k)) \<Longrightarrow>
   (t, r) \<in> set (timedRecords hi ne n xs)"
proof (induction xs arbitrary: n k)
  case Nil
  then show ?case by simp
next
  case (Cons x xs)
  show ?case
  proof (cases k)
    case 0
    with Cons.prems show ?thesis by (simp add: timedRecords_Cons)
  next
    case (Suc k')
    with Cons.prems have "(t, r) \<in> set (timedRecords hi ne (Suc n) xs)"
      by (intro Cons.IH [of k']) simp_all
    then show ?thesis by (simp add: timedRecords_Cons)
  qed
qed

lemma timedRecord_ids: "map (\<lambda>p. itemId (snd p)) (timedRecord hi ne x i) =
    (if isSettled (onBatchItem hi x) then [i] else [])"
  by (simp add: timedRecord_cases split: Promise.splits)

lemma timedRecords_ids:
  "map (\<lambda>p. itemId (snd p)) (timedRecords hi ne n xs) =
     filter (\<lambda>i. isSettled (onBatchItem hi (xs ! (i - n)))) [n..<n + length xs]"
proof (induction xs arbitrary: n)
  case Nil
  show ?case by (simp add: timedRecords_Nil)
next
  case (Cons x xs)
  have "filter (\<lambda>i. isSettled (onBatchItem hi ((x # xs) ! (i - n)))) [Suc n..<Suc n + length xs] =
        filter (\<lambda>i. isSettled (onBatchItem hi (xs ! (i - Suc n)))) [Suc n..<Suc n + length xs]"
  proof (rule filter_cong [OF refl])
    fix i
    assume "i \<in> set [Suc n..<Suc n + length xs]"
    then have "Suc n \<le> i" by (simp del: upt_Suc)
    then have "i - n = Suc (i - Suc n)" by simp
    then show "isSettled (onBatchItem hi ((x # xs) ! (i - n))) =
               isSettled (onBatchItem hi (xs ! (i - Suc n)))"
      by simp
  qed
  then show ?case
    by (simp add: timedRecords_Cons timedRecord_ids Cons.IH upt_conv_Cons del: upt_Suc)
qed

lemma timedRecords_ids_distinct: "distinct (map (\<lambda>p. itemId (snd p)) (timedRecords hi ne n xs))"
  by (simp add: timedRecords_ids)

lemma timedRecords_ids_all:
  "list_all (\<lambda>x. isSettled (onBatchItem hi x)) xs \<Longrightarrow>
   map (\<lambda>p. itemId (snd p)) (timedRecords hi ne n xs) = [n..<n + length xs]"
proof -
  assume "list_all (\<lambda>x. isSettled (onBatchItem hi x)) xs"
  then have "\<forall>i\<in>set [n..<n + length xs]. isSettled (onBatchItem hi (xs ! (i - n)))"
    by (auto simp add: list_all_iff)
  then show ?thesis
    by (simp add: timedRecords_ids del: upt_Suc)
qed


lemma batch_emitted:
  "emitted (getResponseStream (batchProcessingHandler ne handler request) data) =
     map snd (sort_key fst (timedRecords (handler request) ne 0 (batch data)))"
  by (simp add: batch_stream)

lemma batch_ending:
  "ending (getResponseStream (batchProcessingHandler ne handler request) data) =
     (if list_all (\<lambda>x. isSettled (onBatchItem (handler request) x)) (batch data)
      then Complete else Open)"
  by (simp add: batch_stream)

lemma batch_emitted_set:
  "set (emitted (getResponseStream (batchProcessingHandler ne handler request) data)) =
     snd ` set (timedRecords (handler request) ne 0 (batch data))"
  by (simp add: batch_emitted)

lemma batch_emitted_ids:
  "mset (map itemId (emitted (getResponseStream (batchProcessingHandler ne handler request) data))) =
   mset (map (\<lambda>p. itemId (snd p)) (timedRecords (handler request) ne 0 (batch data)))"
proof -
  have "mset (map (\<lambda>p. itemId (snd p))
          (sort_key fst (timedRecords (handler request) ne 0 (batch data)))) =
        mset (map (\<lambda>p. itemId (snd p)) (timedRecords (handler request) ne 0 (batch data)))"
    by (simp only: mset_map mset_sort)
  then show ?thesis
    by (simp add: batch_emitted comp_def)
qed

lemma batch_ids_all:
  assumes "list_all (\<lambda>x. isSettled (onBatchItem (handler request) x)) (batch data)"
  shows "mset (map itemId (emitted (getResponseStream (batchProcessingHandler ne handler request) data))) =
         mset [0..<length (batch data)]"
proof -
  have "map (\<lambda>p. itemId (snd p)) (timedRecords (handler request) ne 0 (batch data)) =
        [0..<0 + length (batch data)]"
    using assms by (rule timedRecords_ids_all)
  then have "map (\<lambda>p. itemId (snd p)) (timedRecords (handler request) ne 0 (batch data)) =
        [0..<length (batch data)]"
    by simp
  then show ?thesis
    by (simp only: batch_emitted_ids)
qed

lemma batch_ids_distinct:
  "distinct (map itemId (emitted (getResponseStream (batchProcessingHandler ne handler request) data)))"
  using mset_eq_imp_distinct_iff [OF batch_emitted_ids [of ne handler request data]]
    timedRecords_ids_distinct [of "handler request" ne 0 "batch data"]
  by simp

lemma length_filter_distinct:
  assumes "distinct (map f xs)" and "i \<in> f ` set xs"
  shows "length (filter (\<lambda>x. f x = i) xs) = 1"
proof -
  have "length (filter (\<lambda>x. f x = i) xs) = length (filter ((=) i) (map f xs))"
    by (simp add: length_filter_map comp_def eq_commute [of i])
  also have "\<dots> = count (mset (map f xs)) i"
    by (metis replicate_count_mset_eq_filter_eq length_replicate)
  also from assms have "\<dots> = 1"
    by (simp only: distinct_count_atmost_1 [THEN iffD1, rule_format] set_map if_True)
  finally show ?thesis .
qed

lemma batch_record_sound:
  assumes "r \<in> set (emitted (getResponseStream (batchProcessingHandler ne handler request) data))"
  shows "itemId r < length (batch data) \<and>
         (case onBatchItem (handler request) (batch data ! itemId r) of
            Resolved t res \<Rightarrow> r = \<lparr>itemId = itemId r, result = Some res, error = None\<rparr>
          | Rejected t err \<Rightarrow> r = \<lparr>itemId = itemId r, result = None, error = Some (ne err)\<rparr>
          | Pending \<Rightarrow> False)"
proof -
  from assms obtain t where "(t, r) \<in> set (timedRecords (handler request) ne 0 (batch data))"
    by (auto simp add: batch_emitted_set)
  from timedRecords_sound [OF this] show ?thesis
    by (auto simp add: timedRecord_cases split: Promise.splits)
qed

lemma batch_record_fields:
  assumes "r \<in> set (emitted (getResponseStream (batchProcessingHandler ne handler request) data))"
  shows "case onBatchItem (handler request) (batch data ! itemId r) of
            Resolved t res \<Rightarrow> result r = Some res \<and> error r = None
          | Rejected t err \<Rightarrow> result r = None \<and> error r = Some (ne err)
          | Pending \<Rightarrow> False"
proof (cases "onBatchItem (handler request) (batch data ! itemId r)")
  case Pending
  with batch_record_sound [OF assms] show ?thesis by simp
next
  case (Resolved t res)
  with batch_record_sound [OF assms]
  have "r = \<lparr>itemId = itemId r, result = Some res, error = None\<rparr>" by simp
  then have "result r = Some res" "error r = None"
    by (metis BatchResponseItem.select_convs(2), metis BatchResponseItem.select_convs(3))
  with Resolved show ?thesis by simp
next
  case (Rejected t err)
  with batch_record_sound [OF assms]
  have "r = \<lparr>itemId = itemId r, result = None, error = Some (ne err)\<rparr>" by simp
  then have "result r = None" "error r = Some (ne err)"
    by (metis BatchResponseItem.select_convs(2), metis BatchResponseItem.select_convs(3))
  with Rejected show ?thesis by simp
qed

lemma batch_record_complete:
  assumes "i < length (batch data)"
    and "(t, r) \<in> set (timedRecord (handler request) ne (batch data ! i) i)"
  shows "r \<in> set (emitted (getResponseStream (batchProcessingHandler ne handler request) data))"
proof -
  from assms have "(t, r) \<in> set (timedRecords (handler request) ne 0 (batch data))"
    by (intro timedRecords_complete) simp_all
  then show ?thesis
    by (force simp add: batch_emitted_set)
qed

subsection \<open>The scenario, evaluated\<close>

text \<open>
  The records of the scenario come in the order in which the handlers settle: \<^verbatim>\<open>fast\<close>,
  \<^verbatim>\<open>throw\<close>, \<^verbatim>\<open>slow\<close>.
\<close>

lemma scenario_stream:
  "scenarioStream =
     \<lparr>emitted =
        [\<lparr>itemId = 1, result = Some ''early'', error = None\<rparr>,
         \<lparr>itemId = 2, result = None, error = Some \<lparr>message = ''boom'', errorRest = ()\<rparr>\<rparr>,
         \<lparr>itemId = 0, result = Some ''late'', error = None\<rparr>],
      ending = Complete\<rparr>"
  by (simp add: batchProcessingHandler_def map_dollar_def batchItemRecord_def enumerate_eq_zip
      upt_rec [of 0] upt_rec [of 1] upt_rec [of 2])

subsection \<open>One record for each item\<close>

text \<open>
  Claim C2. When the handler of every item of a batch of \<open>N\<close> items settles, whether it
  resolves or rejects, the stream of the response (the observable that the route hands to
  \<^verbatim>\<open>createStream\<close>, see \<open>batch_route_body\<close>) emits exactly \<open>N\<close> records and
  completes, and for every position below \<open>N\<close> exactly one of the records has that
  \<^verbatim>\<open>id\<close>: no item is left out and none is answered twice. (A client that disconnects is
  outside the model.)
\<close>

theorem batch_one_record_per_item:
  assumes settled: "\<forall>x\<in>set (batch (body request)). isSettled (onBatchItem (handler request) x)"
  shows "let out = getResponseStream (batchProcessingHandler ne handler request) (body request)
         in length (emitted out) = length (batch (body request)) \<and>
            ending out = Complete \<and>
            (\<forall>i<length (batch (body request)).
               length (filter (\<lambda>r. itemId r = i) (emitted out)) = 1)"
proof -
  let ?items = "batch (body request)"
  let ?out = "getResponseStream (batchProcessingHandler ne handler request) (body request)"
  from settled have all: "list_all (\<lambda>x. isSettled (onBatchItem (handler request) x)) ?items"
    by (simp add: list_all_iff)
  have ids: "mset (map itemId (emitted ?out)) = mset [0..<length ?items]"
    using all by (rule batch_ids_all)
  have len: "length (emitted ?out) = length ?items"
    using arg_cong [OF ids, of size] by simp
  have fin: "ending ?out = Complete"
    using all by (simp add: batch_ending)
  have one: "length (filter (\<lambda>r. itemId r = i) (emitted ?out)) = 1" if "i < length ?items" for i
  proof (rule length_filter_distinct)
    show "distinct (map itemId (emitted ?out))"
      by (rule batch_ids_distinct)
    from that have "i \<in> set [0..<length ?items]"
      by simp
    with mset_eq_setD [OF ids] show "i \<in> itemId ` set (emitted ?out)"
      by (simp only: set_map)
  qed
  from len fin one show ?thesis
    by (simp add: Let_def)
qed

text \<open>
  The scenario: three items, three records, one of them for the item that throws.
\<close>

theorem batch_one_record_per_item_witness:
  "length (emitted scenarioStream) = 3 \<and> ending scenarioStream = Complete \<and>
   length (filter (\<lambda>r. itemId r = 2) (emitted scenarioStream)) = 1"
proof -
  have settled: "\<forall>x\<in>set (batch (body scenarioRequest)).
                   isSettled (onBatchItem (scenarioHandler scenarioRequest) x)"
    by simp
  from batch_one_record_per_item [OF settled, where ne = scenarioNormalizeError]
  show ?thesis
    by (simp add: Let_def)
qed

subsection \<open>Identifiers are positions\<close>

text \<open>
  Claim C3. No two records of the stream have the same \<^verbatim>\<open>id\<close>. The \<^verbatim>\<open>id\<close> of a record
  is the position of an item of the submitted batch, and the record carries the outcome of
  the handler on the item at that position. When every handler settles, the identifiers of
  the records are the positions \<open>0, \<dots>, N - 1\<close>, each once.
\<close>

theorem batch_ids_are_positions:
  "let items = batch (body request);
       out = getResponseStream (batchProcessingHandler ne handler request) (body request)
   in distinct (map itemId (emitted out)) \<and>
      (\<forall>r\<in>set (emitted out).
         itemId r < length items \<and>
         (case onBatchItem (handler request) (items ! itemId r) of
            Resolved t res \<Rightarrow> r = \<lparr>itemId = itemId r, result = Some res, error = None\<rparr>
          | Rejected t err \<Rightarrow> r = \<lparr>itemId = itemId r, result = None, error = Some (ne err)\<rparr>
          | Pending \<Rightarrow> False)) \<and>
      ((\<forall>x\<in>set items. isSettled (onBatchItem (handler request) x)) \<longrightarrow>
         mset (map itemId (emitted out)) = mset [0..<length items] \<and>
         set (map itemId (emitted out)) = {0..<length items})"
proof -
  let ?items = "batch (body request)"
  let ?out = "getResponseStream (batchProcessingHandler ne handler request) (body request)"
  have 1: "distinct (map itemId (emitted ?out))"
    by (rule batch_ids_distinct)
  have 2: "\<forall>r\<in>set (emitted ?out).
         itemId r < length ?items \<and>
         (case onBatchItem (handler request) (?items ! itemId r) of
            Resolved t res \<Rightarrow> r = \<lparr>itemId = itemId r, result = Some res, error = None\<rparr>
          | Rejected t err \<Rightarrow> r = \<lparr>itemId = itemId r, result = None, error = Some (ne err)\<rparr>
          | Pending \<Rightarrow> False)"
    using batch_record_sound by blast
  have 3: "mset (map itemId (emitted ?out)) = mset [0..<length ?items] \<and>
           set (map itemId (emitted ?out)) = {0..<length ?items}"
    if "\<forall>x\<in>set ?items. isSettled (onBatchItem (handler request) x)"
  proof -
    from that have "list_all (\<lambda>x. isSettled (onBatchItem (handler request) x)) ?items"
      by (simp add: list_all_iff)
    then have ids: "mset (map itemId (emitted ?out)) = mset [0..<length ?items]"
      by (rule batch_ids_all)
    from mset_eq_setD [OF ids] have "set (map itemId (emitted ?out)) = {0..<length ?items}"
      by (simp only: set_upt)
    with ids show ?thesis by simp
  qed
  from 1 2 3 show ?thesis
    by (simp only: Let_def) blast
qed

text \<open>
  The scenario: the identifiers of its records are 0, 1 and 2.
\<close>

theorem batch_ids_are_positions_witness:
  "distinct (map itemId (emitted scenarioStream)) \<and>
   set (map itemId (emitted scenarioStream)) = {0..<3}"
proof -
  have settled: "\<forall>x\<in>set (batch (body scenarioRequest)).
                   isSettled (onBatchItem (scenarioHandler scenarioRequest) x)"
    by simp
  from batch_ids_are_positions [where ne = scenarioNormalizeError and handler = scenarioHandler
      and request = scenarioRequest] settled
  show ?thesis
    by (simp add: Let_def numeral_3_eq_3)
qed

subsection \<open>A handler that fails\<close>

text \<open>
  Claim C4. The function that handles one item never rejects: when the handler of the
  item rejects (or throws) with \<open>err\<close>, it resolves with the record
  \<^verbatim>\<open>{id, error: normalizeError(err)}\<close>. So in the stream of a batch, an item whose
  handler fails has its failure record, an item whose handler succeeds has its result
  record whatever the other handlers do, the \<^verbatim>\<open>error\<close> of a record is always a
  normalized error of what the handler of its item threw, the stream never fails, and it
  completes once every handler has settled.
\<close>

theorem batch_failure_is_a_record:
  "let items = batch (body request);
       out = getResponseStream (batchProcessingHandler ne handler request) (body request)
   in \<not> isRejected (batchItemRecord handlerInstance ne batchItem k) \<and>
      (\<forall>t err.
         onBatchItem handlerInstance batchItem = Rejected t err \<longrightarrow>
         batchItemRecord handlerInstance ne batchItem k =
           Resolved t \<lparr>itemId = k, result = None, error = Some (ne err)\<rparr>) \<and>
      (\<forall>i<length items. \<forall>t err.
         onBatchItem (handler request) (items ! i) = Rejected t err \<longrightarrow>
         \<lparr>itemId = i, result = None, error = Some (ne err)\<rparr> \<in> set (emitted out)) \<and>
      (\<forall>i<length items. \<forall>t res.
         onBatchItem (handler request) (items ! i) = Resolved t res \<longrightarrow>
         \<lparr>itemId = i, result = Some res, error = None\<rparr> \<in> set (emitted out)) \<and>
      (\<forall>r\<in>set (emitted out). \<forall>n.
         error r = Some n \<longrightarrow>
         (\<exists>t err. onBatchItem (handler request) (items ! itemId r) = Rejected t err \<and>
            n = ne err)) \<and>
      (\<forall>e. ending out \<noteq> Failed e) \<and>
      ((\<forall>x\<in>set items. isSettled (onBatchItem (handler request) x)) \<longrightarrow> ending out = Complete)"
proof -
  let ?items = "batch (body request)"
  let ?out = "getResponseStream (batchProcessingHandler ne handler request) (body request)"
  have a: "\<not> isRejected (batchItemRecord handlerInstance ne batchItem k)"
    by (rule batchItemRecord_not_rejected)
  have b: "batchItemRecord handlerInstance ne batchItem k =
             Resolved t \<lparr>itemId = k, result = None, error = Some (ne err)\<rparr>"
    if "onBatchItem handlerInstance batchItem = Rejected t err" for t err
    using that by (simp add: batchItemRecord_def)
  have 1: "\<lparr>itemId = i, result = None, error = Some (ne err)\<rparr> \<in> set (emitted ?out)"
    if "i < length ?items" "onBatchItem (handler request) (?items ! i) = Rejected t err" for i t err
    using that by (intro batch_record_complete [of i _ t]) (simp_all add: timedRecord_cases)
  have 2: "\<lparr>itemId = i, result = Some res, error = None\<rparr> \<in> set (emitted ?out)"
    if "i < length ?items" "onBatchItem (handler request) (?items ! i) = Resolved t res" for i t res
    using that by (intro batch_record_complete [of i _ t]) (simp_all add: timedRecord_cases)
  have 3: "\<exists>t err. onBatchItem (handler request) (?items ! itemId r) = Rejected t err \<and> n = ne err"
    if "r \<in> set (emitted ?out)" "error r = Some n" for r n
    using batch_record_fields [OF that(1)] that(2)
    by (cases "onBatchItem (handler request) (?items ! itemId r)") auto
  have 4: "ending ?out \<noteq> Failed e" for e
    by (simp add: batch_ending)
  have 5: "ending ?out = Complete" if "\<forall>x\<in>set ?items. isSettled (onBatchItem (handler request) x)"
    using that by (simp add: batch_ending list_all_iff)
  from a b 1 2 3 4 5 show ?thesis
    by (simp only: Let_def) blast
qed

text \<open>
  The scenario: the failure of \<^verbatim>\<open>throw\<close> is a record, the result of \<^verbatim>\<open>slow\<close>, which
  settles after it, is a record too, and the stream completes.
\<close>

theorem batch_failure_is_a_record_witness:
  "\<lparr>itemId = 2, result = None, error = Some \<lparr>message = ''boom'', errorRest = ()\<rparr>\<rparr>
     \<in> set (emitted scenarioStream) \<and>
   \<lparr>itemId = 0, result = Some ''late'', error = None\<rparr> \<in> set (emitted scenarioStream) \<and>
   ending scenarioStream = Complete"
proof -
  have settled: "\<forall>x\<in>set (batch (body scenarioRequest)).
                   isSettled (onBatchItem (scenarioHandler scenarioRequest) x)"
    by simp
  have failed: "onBatchItem (scenarioHandler scenarioRequest) (batch (body scenarioRequest) ! 2) =
                  Rejected 2 ''boom''"
    by simp
  have succeeded: "onBatchItem (scenarioHandler scenarioRequest) (batch (body scenarioRequest) ! 0) =
                  Resolved 100 ''late''"
    by simp
  from batch_failure_is_a_record [where ne = scenarioNormalizeError and handler = scenarioHandler
      and request = scenarioRequest and handlerInstance = "scenarioHandler scenarioRequest"
      and batchItem = "''throw''" and k = 2] settled failed succeeded
  show ?thesis
    unfolding Let_def by (auto dest!: spec [of _ "2::nat"])
qed

subsection \<open>The two shapes of a record\<close>

text \<open>
  Claim C8. The record of a batch item is what the function that handles one item resolves
  with. It resolves with \<^verbatim>\<open>{id, result}\<close>, a record without \<^verbatim>\<open>error\<close>, or with
  \<^verbatim>\<open>{id, error}\<close>, a record without \<^verbatim>\<open>result\<close> whose \<^verbatim>\<open>error\<close> is an
  \<^verbatim>\<open>ErrorLike\<close> (an object with a \<^verbatim>\<open>message\<close>, a string); or it stays pending, and
  there is no record.
\<close>

theorem batch_record_shape:
  "batchItemRecord handlerInstance ne batchItem i = Pending \<or>
   (\<exists>t res. batchItemRecord handlerInstance ne batchItem i =
      Resolved t \<lparr>itemId = i, result = Some res, error = None\<rparr>) \<or>
   (\<exists>t err. batchItemRecord handlerInstance ne batchItem i =
      Resolved t \<lparr>itemId = i, result = None, error = Some (ne err)\<rparr>)"
  by (cases "onBatchItem handlerInstance batchItem") (auto simp add: batchItemRecord_def)

text \<open>
  So every record of the stream of a batch has one of the two shapes: a result and no error,
  or an error and no result.
\<close>

lemma batch_stream_record_shape:
  "\<forall>r\<in>set (emitted (getResponseStream (batchProcessingHandler ne handler request)
                       (body request))).
     (\<exists>res. r = \<lparr>itemId = itemId r, result = Some res, error = None\<rparr>) \<or>
     (\<exists>n. r = \<lparr>itemId = itemId r, result = None, error = Some n\<rparr>)"
proof
  fix r
  assume "r \<in> set (emitted (getResponseStream (batchProcessingHandler ne handler request)
                      (body request)))"
  from batch_record_sound [OF this]
  show "(\<exists>res. r = \<lparr>itemId = itemId r, result = Some res, error = None\<rparr>) \<or>
    (\<exists>n. r = \<lparr>itemId = itemId r, result = None, error = Some n\<rparr>)"
    by (cases "onBatchItem (handler request) (batch (body request) ! itemId r)") auto
qed

subsection \<open>Records come in completion order\<close>

text \<open>
  Claim C5. If the handler of the item at position \<open>j\<close> settles before the handler of
  the item at position \<open>i\<close>, the record of \<open>j\<close> comes before the record of \<open>i\<close> in the
  stream, whatever the order of \<open>i\<close> and \<open>j\<close> in the batch. (That the handlers start
  together is how \<open>map_dollar\<close> reads the ticks.)
\<close>

theorem batch_completion_order:
  assumes i: "i < length (batch (body request))"
      and j: "j < length (batch (body request))"
      and ti: "settledAt (onBatchItem (handler request) (batch (body request) ! i)) = ti"
              "isSettled (onBatchItem (handler request) (batch (body request) ! i))"
      and tj: "settledAt (onBatchItem (handler request) (batch (body request) ! j)) = tj"
              "isSettled (onBatchItem (handler request) (batch (body request) ! j))"
      and before: "tj < ti"
  shows "\<exists>p q. p < q \<and>
           q < length (emitted (getResponseStream (batchProcessingHandler ne handler request)
                                 (body request))) \<and>
           itemId (emitted (getResponseStream (batchProcessingHandler ne handler request)
                      (body request)) ! p) = j \<and>
           itemId (emitted (getResponseStream (batchProcessingHandler ne handler request)
                      (body request)) ! q) = i"
proof -
  let ?items = "batch (body request)"
  let ?T = "timedRecords (handler request) ne 0 ?items"
  let ?S = "sort_key fst ?T"
  have member: "\<exists>r. (t, r) \<in> set ?T \<and> itemId r = k"
    if "k < length ?items" "settledAt (onBatchItem (handler request) (?items ! k)) = t"
       "isSettled (onBatchItem (handler request) (?items ! k))" for k t
  proof -
    from that(2,3) obtain r where "(t, r) \<in> set (timedRecord (handler request) ne (?items ! k) k)"
      "itemId r = k"
      by (cases "onBatchItem (handler request) (?items ! k)") (auto simp add: timedRecord_cases)
    with that(1) timedRecords_complete [of k ?items t r "handler request" ne 0]
    show ?thesis by auto
  qed
  from member [OF i ti] obtain ri where ri: "(ti, ri) \<in> set ?S" "itemId ri = i"
    by auto
  from member [OF j tj] obtain rj where rj: "(tj, rj) \<in> set ?S" "itemId rj = j"
    by auto
  from ri(1) obtain q where q: "q < length ?S" "?S ! q = (ti, ri)"
    by (metis in_set_conv_nth)
  from rj(1) obtain p where p: "p < length ?S" "?S ! p = (tj, rj)"
    by (metis in_set_conv_nth)
  have sorted: "sorted (map fst ?S)"
    by (rule sorted_sort_key)
  have "p < q"
  proof (rule ccontr)
    assume "\<not> p < q"
    then have "q \<le> p" by simp
    with sorted p(1) have "map fst ?S ! q \<le> map fst ?S ! p"
      by (intro sorted_nth_mono) simp_all
    with p q \<open>q \<le> p\<close> have "ti \<le> tj" by simp
    with before show False by simp
  qed
  moreover from q have "q < length (emitted (getResponseStream
      (batchProcessingHandler ne handler request) (body request)))"
    by (simp add: batch_emitted)
  moreover from p q ri rj have
    "itemId (emitted (getResponseStream (batchProcessingHandler ne handler request)
        (body request)) ! p) = j"
    "itemId (emitted (getResponseStream (batchProcessingHandler ne handler request)
        (body request)) ! q) = i"
    by (simp_all add: batch_emitted)
  ultimately show ?thesis by blast
qed

text \<open>
  The scenario: \<^verbatim>\<open>fast\<close>, submitted second, is answered before \<^verbatim>\<open>slow\<close>.
\<close>

theorem batch_completion_order_witness:
  "\<exists>p q. p < q \<and> q < length (emitted scenarioStream) \<and>
     itemId (emitted scenarioStream ! p) = 1 \<and> itemId (emitted scenarioStream ! q) = 0"
proof -
  show ?thesis
    by (rule batch_completion_order [where i = 0 and j = 1 and ti = 100 and tj = 1
          and request = scenarioRequest and handler = scenarioHandler]) simp_all
qed

subsection \<open>The compression flag\<close>

text \<open>
  Claim C1, as the code has it. Compression is disabled by default: the flag
  \<^verbatim>\<open>compressionDisabled\<close> that the route hands to \<^verbatim>\<open>createStream\<close> is false exactly
  when the request carries the header \<^verbatim>\<open>x-chunk-encoding\<close> with the value
  \<^verbatim>\<open>deflate\<close>, and true when the header is absent or has any other value.
\<close>

theorem compression_enabled_iff_deflate:
  "(\<not> getCompressionDisabled request \<longleftrightarrow>
      headers request ''x-chunk-encoding'' = Some (Single ''deflate'')) \<and>
   body' (streamingResponseRoute toStream handler request) =
     toStream (getResponseStream (handler request) (body request))
       (headers request ''x-chunk-encoding'' \<noteq> Some (Single ''deflate''))"
  by (simp add: getCompressionDisabled_def streamingResponseRoute_def ok_def Let_def)

text \<open>
  Claim C1, as stated, at a request without the header and at a request with
  \<^verbatim>\<open>x-chunk-encoding: deflate\<close>: compression is disabled for the first, where the claim
  has it enabled, and not disabled for the second, where the claim has it disabled.
\<close>

theorem compression_default_counterexample:
  "getCompressionDisabled \<lparr>headers = Map.empty, body = ()\<rparr> \<and>
   \<not> getCompressionDisabled
       \<lparr>headers = [''x-chunk-encoding'' \<mapsto> Single ''deflate''], body = ()\<rparr>"
  by (simp add: getCompressionDisabled_def)

subsection \<open>Status and headers\<close>

text \<open>
  Claim C7. The response of a streaming route, of a batch processing route (whatever the
  handlers of the items do) and of a streaming request handler (once the observable it
  awaits is there) has the status 200 and the headers \<^verbatim>\<open>Content-Type: application/x-ndjson\<close>,
  \<^verbatim>\<open>Connection: keep-alive\<close> and \<^verbatim>\<open>Transfer-Encoding: chunked\<close>.
\<close>

theorem streaming_response_status_headers:
  "status (streamingResponseRoute toStream handler request) = 200 \<and>
   headers' (streamingResponseRoute toStream handler request) = streamingHeaders \<and>
   status (batchProcessingRoute batchToStream ne batchHandler batchRequest) = 200 \<and>
   headers' (batchProcessingRoute batchToStream ne batchHandler batchRequest) = streamingHeaders \<and>
   (\<forall>t response.
      streamingRequestHandler awaitedToStream streamHandler ctx awaitedRequest = Resolved t response \<longrightarrow>
      status response = 200 \<and> headers' response = streamingHeaders) \<and>
   map_of streamingHeaders ''Content-Type'' = Some ''application/x-ndjson'' \<and>
   map_of streamingHeaders ''Connection'' = Some ''keep-alive'' \<and>
   map_of streamingHeaders ''Transfer-Encoding'' = Some ''chunked''"
  by (auto simp add: streamingResponseRoute_def batchProcessingRoute_def
      streamingRequestHandler_def ok_def Let_def streamingHeaders_def split: Promise.splits)

text \<open>
  A streaming request handler whose observable arrives at tick 5, and a batch whose
  handlers all reject.
\<close>

theorem streaming_response_status_headers_witness:
  "(\<exists>response.
      streamingRequestHandler (createStream (\<lambda>r. r) rev)
        (\<lambda>context request. Resolved 5 \<lparr>emitted = [''a''], ending = (Complete :: unit Ending)\<rparr>)
        () scenarioRequest = (Resolved 5 response :: (unit, unit Stream HttpResponse) Promise) \<and>
      status response = 200 \<and> headers' response = streamingHeaders) \<and>
   status (batchProcessingRoute (createStream (\<lambda>r. numberToString (itemId r)) rev)
             scenarioNormalizeError (\<lambda>request. \<lparr>onBatchItem = \<lambda>op. Rejected 0 ''boom''\<rparr>)
             scenarioRequest) = 200"
proof -
  have resolved: "streamingRequestHandler (createStream (\<lambda>r. r) rev)
        (\<lambda>context request. Resolved 5 \<lparr>emitted = [''a''], ending = (Complete :: unit Ending)\<rparr>)
        () scenarioRequest =
      (Resolved 5 (ok streamingHeaders
         (createStream (\<lambda>r. r) rev \<lparr>emitted = [''a''], ending = Complete\<rparr> True))
        :: (unit, unit Stream HttpResponse) Promise)"
    by (simp add: streamingRequestHandler_def getCompressionDisabled_def)
  note claim = streaming_response_status_headers
    [where awaitedToStream = "createStream (\<lambda>r. r) rev"
       and streamHandler =
         "\<lambda>context request. Resolved 5 \<lparr>emitted = [''a''], ending = (Complete :: unit Ending)\<rparr>"
       and ctx = "()" and awaitedRequest = scenarioRequest
       and batchToStream = "createStream (\<lambda>r. numberToString (itemId r)) rev"
       and ne = scenarioNormalizeError
       and batchHandler = "\<lambda>request. \<lparr>onBatchItem = \<lambda>op. Rejected 0 ''boom''\<rparr>"
       and batchRequest = scenarioRequest
       and toStream = "createStream (\<lambda>r. r) rev"
       and handler = "\<lambda>request. \<lparr>getResponseStream =
           \<lambda>data. \<lparr>emitted = [''a''], ending = (Complete :: unit Ending)\<rparr>\<rparr>"
       and request = scenarioRequest]
  from claim resolved have
    "status (ok streamingHeaders
       (createStream (\<lambda>r. r) rev \<lparr>emitted = [''a''], ending = (Complete :: unit Ending)\<rparr> True)) = 200 \<and>
     headers' (ok streamingHeaders
       (createStream (\<lambda>r. r) rev \<lparr>emitted = [''a''], ending = (Complete :: unit Ending)\<rparr> True)) =
       streamingHeaders"
    by blast
  moreover from claim have
    "status (batchProcessingRoute (createStream (\<lambda>r. numberToString (itemId r)) rev)
             scenarioNormalizeError (\<lambda>request. \<lparr>onBatchItem = \<lambda>op. Rejected 0 ''boom''\<rparr>)
             scenarioRequest) = 200"
    by blast
  ultimately show ?thesis
    using resolved by blast
qed

subsection \<open>Compression does not change the records\<close>

lemma splitLines_line:
  "newline \<notin> set l \<Longrightarrow> splitLines line (l @ newline # rest) = (line @ l) # splitLines [] rest"
  by (induction l arbitrary: line) auto

lemma splitLines_lines:
  "\<forall>l\<in>set ls. newline \<notin> set l \<Longrightarrow>
   splitLines [] (concat (map (\<lambda>l. l @ [newline]) ls)) = ls"
proof (induction ls)
  case Nil
  show ?case by simp
next
  case (Cons l ls)
  then show ?case
    using splitLines_line [of l "[]" "concat (map (\<lambda>l. l @ [newline]) ls)"] by simp
qed

lemma those_map_Some:
  "\<forall>x\<in>set xs. f x = Some (g x) \<Longrightarrow> those (map f xs) = Some (map g xs)"
  by (induction xs) simp_all

lemma readStream_lines:
  assumes "\<forall>r\<in>set rs. newline \<notin> set (enc r)"
    and "\<forall>r\<in>set rs. (if flag then parse (enc r)
                        else (case inflate (enc r) of None \<Rightarrow> None | Some text \<Rightarrow> parse text)) = Some r"
  shows "readStream parse inflate flag (concat (map (\<lambda>r. enc r @ [newline]) rs)) = Some rs"
proof -
  have "concat (map (\<lambda>r. enc r @ [newline]) rs) = concat (map (\<lambda>l. l @ [newline]) (map enc rs))"
    by (simp add: comp_def)
  moreover from assms(1) have "splitLines [] (concat (map (\<lambda>l. l @ [newline]) (map enc rs))) = map enc rs"
    by (intro splitLines_lines) simp
  ultimately have "splitLines [] (concat (map (\<lambda>r. enc r @ [newline]) rs)) = map enc rs"
    by simp
  moreover from assms(2) have
    "those (map (\<lambda>line. if flag then parse line
                         else (case inflate line of None \<Rightarrow> None | Some text \<Rightarrow> parse text))
              (map enc rs)) = Some (map (\<lambda>r. r) rs)"
    unfolding map_map by (intro those_map_Some) simp
  ultimately show ?thesis
    by (simp add: readStream_def)
qed

text \<open>
  Claim C6. For the same observable of records, the stream written with compression,
  decompressed and parsed line by line, gives the same records as the stream written
  without compression and parsed line by line: both give the records of the observable, in
  order, and the two streams end alike. The hypothesis is about the parameters, on the
  records emitted: \<open>parse\<close> reads back what \<open>stringify\<close> writes, \<open>inflate\<close> reads back
  what \<open>deflate\<close> writes, and neither writes a newline.
\<close>

theorem compression_keeps_records:
  assumes "\<forall>r\<in>set (emitted results).
             parse (stringify r) = Some r \<and> newline \<notin> set (stringify r) \<and>
             inflate (deflate (stringify r)) = Some (stringify r) \<and>
             newline \<notin> set (deflate (stringify r))"
  shows "readStream parse inflate False (written (createStream stringify deflate results False)) =
           Some (emitted results) \<and>
         readStream parse inflate True (written (createStream stringify deflate results True)) =
           Some (emitted results) \<and>
         streamEnd (createStream stringify deflate results False) =
           streamEnd (createStream stringify deflate results True)"
proof -
  have "readStream parse inflate False
          (concat (map (\<lambda>r. deflate (stringify r) @ [newline]) (emitted results))) =
        Some (emitted results)"
    using assms by (intro readStream_lines) simp_all
  moreover have "readStream parse inflate True
          (concat (map (\<lambda>r. stringify r @ [newline]) (emitted results))) =
        Some (emitted results)"
    using assms by (intro readStream_lines) simp_all
  ultimately show ?thesis
    by (simp add: createStream_def createNDJSONStream_def createCompressedStream_def)
qed

text \<open>
  Two records, with the reversal of a text as its compression.
\<close>

theorem compression_keeps_records_witness:
  "readStream Some (\<lambda>s. Some (rev s)) False
     (written (createStream (\<lambda>r. r) rev
        \<lparr>emitted = [''ab'', ''c''], ending = (Complete :: unit Ending)\<rparr> False)) =
     Some [''ab'', ''c''] \<and>
   readStream Some (\<lambda>s. Some (rev s)) True
     (written (createStream (\<lambda>r. r) rev
        \<lparr>emitted = [''ab'', ''c''], ending = (Complete :: unit Ending)\<rparr> True)) =
     Some [''ab'', ''c'']"
proof -
  have laws: "\<forall>r\<in>set (emitted \<lparr>emitted = [''ab'', ''c''], ending = (Complete :: unit Ending)\<rparr>).
             Some ((\<lambda>r. r) r) = Some r \<and> newline \<notin> set ((\<lambda>r. r) r) \<and>
             (\<lambda>s. Some (rev s)) (rev ((\<lambda>r. r) r)) = Some ((\<lambda>r. r) r) \<and>
             newline \<notin> set (rev ((\<lambda>r. r) r))"
    by (simp add: newline_def)
  from compression_keeps_records [where parse = Some and stringify = "\<lambda>r. r"
      and inflate = "\<lambda>s. Some (rev s)" and deflate = rev, OF laws]
  show ?thesis
    by simp
qed

end
